theory Spec2Isabelle
  imports Main
begin

section \<open>Strings of the host language\<close>

text \<open>
  Source strings are sequences of code units; the model keeps the code units below 256
  (\<^typ>\<open>char\<close>), which covers every character the parsers test for. The functions of this
  section are the library methods the source calls: \<open>startsWith\<close>, \<open>slice(n)\<close> (which is
  \<^const>\<open>drop\<close>), \<open>split\<close>, \<open>trim\<close>, \<open>join\<close> and \<open>parseInt(_, 10)\<close>.
\<close>

abbreviation NL :: char where
  "NL \<equiv> CHR 0x0A"

abbreviation SP :: char where
  "SP \<equiv> CHR 0x20"

definition startsWith :: "string \<Rightarrow> string \<Rightarrow> bool" where
  "startsWith p s = (take (length p) s = p)"

text \<open>
  \<open>s.split(sep)\<close>: the separator is searched from the left; a match closes the current
  segment and the search resumes behind the match, so matches never overlap. An empty
  separator cuts between all code units.
\<close>

fun js_split :: "string \<Rightarrow> string \<Rightarrow> string list" where
  "js_split [] s = map (\<lambda>c. [c]) s"
| "js_split (d # ds) [] = [[]]"
| "js_split (d # ds) (c # cs) =
     (if startsWith (d # ds) (c # cs) then [] # js_split (d # ds) (drop (length ds) cs)
      else (case js_split (d # ds) cs of
              [] \<Rightarrow> [[c]]
            | p # ps \<Rightarrow> (c # p) # ps))"

text \<open>\<open>xs.join(sep)\<close>.\<close>

fun join :: "string \<Rightarrow> string list \<Rightarrow> string" where
  "join sep [] = []"
| "join sep [x] = x"
| "join sep (x # y # ys) = x @ sep @ join sep (y # ys)"

text \<open>
  White space and line terminators that \<open>trim\<close> removes, among the code units below 256:
  tab, line feed, vertical tab, form feed, carriage return, space and no-break space.
\<close>

definition is_ws :: "char \<Rightarrow> bool" where
  "is_ws c = (c \<in> {CHR 0x09, CHR 0x0A, CHR 0x0B, CHR 0x0C, CHR 0x0D, CHR 0x20, CHR 0xA0})"

definition trim :: "string \<Rightarrow> string" where
  "trim s = rev (dropWhile is_ws (rev (dropWhile is_ws s)))"

definition is_digit :: "char \<Rightarrow> bool" where
  "is_digit c = (48 \<le> (of_char c :: nat) \<and> (of_char c :: nat) \<le> 57)"

definition digit_val :: "char \<Rightarrow> nat" where
  "digit_val c = of_char c - 48"

text \<open>
  The numbers that \<open>parseInt\<close> returns, \<open>NaN\<close> apart: integers that a double holds, the
  negative zero, and the two infinities.
\<close>

datatype js_number = Num int | NegZero | PosInfinity | NegInfinity

text \<open>The number of binary digits of a natural number.\<close>

fun bit_length :: "nat \<Rightarrow> nat" where
  "bit_length n = (if n = 0 then 0 else Suc (bit_length (n div 2)))"

text \<open>
  The double nearest to a natural number, ties going to the even significand of 53 bits;
  \<^const>\<open>None\<close> when the rounded value is \<open>2^1024\<close> or more, which no finite double holds.
  Below \<open>2^53\<close> every natural number is a double.
\<close>

definition round_double :: "nat \<Rightarrow> nat option" where
  "round_double m =
     (if m < 2 ^ 53 then Some m
      else (let e = bit_length m - 53;
                q = m div 2 ^ e;
                r = m mod 2 ^ e;
                q' = (if 2 ^ e < 2 * r \<or> (2 * r = 2 ^ e \<and> odd q) then q + 1 else q);
                v = q' * 2 ^ e
            in if 2 ^ 1024 \<le> v then None else Some v))"

definition to_number :: "bool \<Rightarrow> nat \<Rightarrow> js_number" where
  "to_number neg m =
     (case round_double m of
        None \<Rightarrow> (if neg then NegInfinity else PosInfinity)
      | Some v \<Rightarrow> (if neg then (if v = 0 then NegZero else Num (- int v)) else Num (int v)))"

text \<open>
  \<open>parseInt(s, 10)\<close>: leading white space is skipped, one sign is accepted, and the longest
  run of decimal digits that follows is the number; what comes after the digits is ignored.
  With no digit the result is \<open>NaN\<close>, here \<^const>\<open>None\<close>. Otherwise the result is the
  double nearest to the signed integer that the digits denote, so it is exact below \<open>2^53\<close>,
  rounded above, and infinite from 309 digits on; it is never \<open>NaN\<close>. (The standard also
  lets an implementation read the digits after the twentieth as zeros; the model takes the
  correctly rounded value.)
\<close>

definition parseInt :: "string \<Rightarrow> js_number option" where
  "parseInt s =
     (let s1 = dropWhile is_ws s;
          neg = (s1 \<noteq> [] \<and> hd s1 = CHR ''-'');
          s2 = (if s1 \<noteq> [] \<and> (hd s1 = CHR ''-'' \<or> hd s1 = CHR ''+'') then tl s1 else s1);
          z = takeWhile is_digit s2
      in if z = [] then None
         else Some (to_number neg (foldl (\<lambda>a c. 10 * a + digit_val c) 0 z)))"

section \<open>The frame parser\<close>

text \<open>
  \<open>SSEEvent\<close>: four optional fields. A field that was assigned is \<^const>\<open>Some\<close>, also when the
  assigned string is empty.
\<close>

record SSEEvent =
  event :: "string option"
  data :: "string option"
  id_field :: "string option"
  retry :: "js_number option"

definition empty_event :: SSEEvent where
  "empty_event = \<lparr>event = None, data = None, id_field = None, retry = None\<rparr>"

text \<open>\<open>Object.keys(result).length > 0\<close>.\<close>

definition has_keys :: "SSEEvent \<Rightarrow> bool" where
  "has_keys r = (\<not> (event r = None \<and> data r = None \<and> id_field r = None \<and> retry r = None))"

text \<open>
  One turn of the loop over the lines of \<open>parseSSEEvent\<close>; the loop state is the event under
  construction and the list \<open>dataLines\<close>.
\<close>

definition parse_line :: "SSEEvent \<times> string list \<Rightarrow> string \<Rightarrow> SSEEvent \<times> string list" where
  "parse_line st line =
     (let result = fst st; dataLines = snd st in
      if startsWith ''data:'' line then
        (let content = drop 5 line
         in (result, dataLines @ [if startsWith '' '' content then drop 1 content else content]))
      else if startsWith ''event:'' line then
        (result\<lparr>event := Some (trim (drop 6 line))\<rparr>, dataLines)
      else if startsWith ''id:'' line then
        (result\<lparr>id_field := Some (trim (drop 3 line))\<rparr>, dataLines)
      else if startsWith ''retry:'' line then
        (case parseInt (trim (drop 6 line)) of
           None \<Rightarrow> (result, dataLines)
         | Some n \<Rightarrow> (result\<lparr>retry := Some n\<rparr>, dataLines))
      else (result, dataLines))"

definition parse_lines :: "string list \<Rightarrow> SSEEvent \<times> string list" where
  "parse_lines ls = foldl parse_line (empty_event, []) ls"

definition finish_event :: "SSEEvent \<times> string list \<Rightarrow> SSEEvent option" where
  "finish_event st =
     (let result = (if snd st \<noteq> [] then (fst st)\<lparr>data := Some (join [NL] (snd st))\<rparr> else fst st)
      in if has_keys result then Some result else None)"

definition parseSSEEvent :: "string \<Rightarrow> SSEEvent option" where
  "parseSSEEvent eventBlock = finish_event (parse_lines (js_split [NL] eventBlock))"

section \<open>The stateless splitter\<close>

text \<open>
  \<open>parseSSEChunk\<close> returns the arguments of its calls of \<open>onMessage\<close>, in order. The test
  \<open>parsed?.data\<close> holds when an event was parsed and its data field is a non-empty string.
\<close>

definition message_of :: "string \<Rightarrow> string list" where
  "message_of eventBlock =
     (case parseSSEEvent eventBlock of
        None \<Rightarrow> []
      | Some parsed \<Rightarrow> (case data parsed of None \<Rightarrow> [] | Some d \<Rightarrow> if d \<noteq> [] then [d] else []))"

definition parseSSEChunk :: "string \<Rightarrow> string list" where
  "parseSSEChunk sseText =
     concat (map message_of (filter (\<lambda>b. b \<noteq> []) (js_split [NL, NL] sseText)))"

section \<open>The stateful parser\<close>

text \<open>
  The closure returned by \<open>createSSEParser\<close> owns one variable, \<open>buffer\<close>, initially empty.
  One call of the closure maps the buffer and the chunk to the new buffer and the events
  handed to \<open>onMessage\<close>, in order.
\<close>

definition block_events :: "string \<Rightarrow> SSEEvent list" where
  "block_events eventBlock =
     (if trim eventBlock = [] then []
      else (case parseSSEEvent eventBlock of None \<Rightarrow> [] | Some parsed \<Rightarrow> [parsed]))"

definition feed :: "string \<Rightarrow> string \<Rightarrow> string \<times> SSEEvent list" where
  "feed buffer chunk =
     (let parts = js_split [NL, NL] (buffer @ chunk);
          popped = (if parts = [] then [] else last parts)
      in (popped, concat (map block_events (butlast parts))))"

text \<open>A sequence of calls of one parser instance: the final buffer and all events emitted.\<close>

fun feed_all :: "string \<Rightarrow> string list \<Rightarrow> string \<times> SSEEvent list" where
  "feed_all buffer [] = (buffer, [])"
| "feed_all buffer (chunk # chunks) =
     (let r = feed buffer chunk; r' = feed_all (fst r) chunks
      in (fst r', snd r @ snd r'))"

definition createSSEParser :: "string list \<Rightarrow> string \<times> SSEEvent list" where
  "createSSEParser chunks = feed_all [] chunks"

section \<open>The stream controller\<close>

subsection \<open>Values the controller receives\<close>

text \<open>
  The controller looks at a response through three properties only. A property value is
  falsy, or it is truthy and then its own \<open>getReader\<close> property is absent (or falsy), present
  but no function, or a function.
\<close>

datatype getReaderProp = Missing | NotAFunction | IsFunction

datatype js_value = Falsy | Truthy getReaderProp

record response =
  resp_data :: js_value
  resp_body :: js_value
  resp_getReader :: getReaderProp

text \<open>\<open>response.data || response.body || (response.getReader ? response : null)\<close>.\<close>

definition readableStream :: "response \<Rightarrow> js_value" where
  "readableStream r =
     (case resp_data r of
        Truthy g \<Rightarrow> Truthy g
      | Falsy \<Rightarrow>
          (case resp_body r of
             Truthy g \<Rightarrow> Truthy g
           | Falsy \<Rightarrow>
               (case resp_getReader r of
                  Missing \<Rightarrow> Falsy
                | NotAFunction \<Rightarrow> Truthy NotAFunction
                | IsFunction \<Rightarrow> Truthy IsFunction)))"

text \<open>The negation of \<open>!readableStream || typeof readableStream.getReader !== "function"\<close>.\<close>

definition has_reader :: "response \<Rightarrow> bool" where
  "has_reader r = (readableStream r = Truthy IsFunction)"

text \<open>
  A thrown value, by the three properties the handlers read; \<open>code\<close> and \<open>message\<close> may be
  absent.
\<close>

record js_error =
  err_name :: string
  err_code :: "string option"
  err_message :: "string option"

text \<open>\<open>err.message || fallback\<close>: an absent or empty message is falsy.\<close>

definition message_or :: "js_error \<Rightarrow> string \<Rightarrow> string" where
  "message_or err fallback =
     (case err_message err of None \<Rightarrow> fallback | Some m \<Rightarrow> if m \<noteq> [] then m else fallback)"

text \<open>The message inside a template literal: an absent one prints as \<open>undefined\<close>.\<close>

definition message_text :: "js_error \<Rightarrow> string" where
  "message_text err = (case err_message err of None \<Rightarrow> ''undefined'' | Some m \<Rightarrow> m)"

definition no_stream_message :: string where
  "no_stream_message =
     ''Browser does not support stream response, API did not return stream, or response was transformed incorrectly''"

definition no_stream_error :: js_error where
  "no_stream_error = \<lparr>err_name = ''Error'', err_code = None, err_message = Some no_stream_message\<rparr>"

text \<open>
  \<open>StreamOptions\<close>, by the settings the controller reads: \<open>retry\<close>, \<open>retryDelay\<close> (numbers,
  modelled as integers, of which zero is the falsy one) and \<open>signal\<close>, which is absent or
  carries its \<open>aborted\<close> flag at the time of the call.
\<close>

record StreamOptions =
  opt_retry :: "int option"
  opt_retryDelay :: "int option"
  opt_signal :: "bool option"

text \<open>The three callbacks are optional arguments; the record says which were passed.\<close>

record callbacks =
  has_onChunk :: bool
  has_onComplete :: bool
  has_onError :: bool

text \<open>\<open>options.retry || 0\<close> and \<open>options.retryDelay || 1000\<close>: the default replaces every falsy value.\<close>

definition maxRetries :: "StreamOptions \<Rightarrow> int" where
  "maxRetries options = (case opt_retry options of None \<Rightarrow> 0 | Some n \<Rightarrow> if n \<noteq> 0 then n else 0)"

definition retryDelay :: "StreamOptions \<Rightarrow> int" where
  "retryDelay options =
     (case opt_retryDelay options of None \<Rightarrow> 1000 | Some d \<Rightarrow> if d \<noteq> 0 then d else 1000)"

subsection \<open>Effects and the session state\<close>

text \<open>
  What a session does to the outside, in order: it issues the request, arms the retry
  timer with a delay, calls one of the callbacks, or writes to the error console (the
  message of a failed request, or the error that made the cancel function fail).
\<close>

datatype effect =
  Request
  | SetTimeout int
  | OnChunk string
  | OnComplete
  | OnError string
  | ConsoleError string
  | ConsoleCancelFailed js_error

text \<open>
  Each \<open>await\<close> of \<open>makeRequest\<close> and \<open>readStreamChunk\<close> is a point where the session is
  suspended until the environment settles the awaited promise.
\<close>

datatype phase = AwaitResponse | AwaitTimer | AwaitRead | Idle

record session =
  aborted :: bool
  listening :: bool
  reader :: bool
  attempts :: int
  pending :: phase
  trace :: "effect list"

text \<open>
  What the environment does to a session: it settles the pending request, fires the retry
  timer, settles the pending read (with a decoded chunk, the end of the stream, or a
  failure), the caller invokes the cancel function (on a platform with the given behaviour
  of \<open>releaseLock\<close>), or the caller's signal aborts.
\<close>

datatype read_result = Chunk string | Done | ReadFailed js_error

text \<open>
  What \<open>releaseLock\<close> does when it is called while a read of the reader is pending. By the
  Streams standard it rejects the pending read, with a \<open>TypeError\<close>. Before that rule the
  standard made the call throw. And on a platform where the abort itself has already
  failed the pending read, the release meets no pending read and returns; the failure of
  the read then reaches the session as a later input.
\<close>

datatype release = ReadAlreadyFailed | RejectsRead js_error | Throws js_error

datatype input =
  Responded response
  | Rejected js_error
  | TimerFired
  | ReadSettled read_result
  | CancelCalled release
  | SignalAborted

definition emit :: "bool \<Rightarrow> effect \<Rightarrow> session \<Rightarrow> session" where
  "emit present e s = (if present then s\<lparr>trace := trace s @ [e]\<rparr> else s)"

definition cleanup :: "session \<Rightarrow> session" where
  "cleanup s = (if listening s then s\<lparr>listening := False\<rparr> else s)"

text \<open>The head of \<open>makeRequest\<close>, up to the \<open>await\<close> of the request.\<close>

definition makeRequest :: "session \<Rightarrow> session" where
  "makeRequest s =
     (if aborted s then s\<lparr>pending := Idle\<rparr>
      else (emit True Request s)\<lparr>pending := AwaitResponse\<rparr>)"

text \<open>The \<open>catch\<close> block of \<open>makeRequest\<close>.\<close>

definition establish_failed :: "StreamOptions \<Rightarrow> callbacks \<Rightarrow> session \<Rightarrow> js_error \<Rightarrow> session" where
  "establish_failed options cbs s err =
     (if err_name err = ''CanceledError'' \<or> err_code err = Some ''ERR_CANCELED'' \<or> aborted s
      then s\<lparr>pending := Idle\<rparr>
      else if attempts s < maxRetries options
      then (emit True (SetTimeout (retryDelay options)) (s\<lparr>attempts := attempts s + 1\<rparr>))
             \<lparr>pending := AwaitTimer\<rparr>
      else (let errorMsg = message_or err ''Stream request failed''
            in (emit True (ConsoleError errorMsg) (emit (has_onError cbs) (OnError errorMsg) s))
                 \<lparr>pending := Idle\<rparr>))"

text \<open>
  The body of \<open>makeRequest\<close> behind the \<open>await\<close>, for a request that resolved. A stream whose
  \<open>getReader\<close> is a function is taken to hand out its reader.
\<close>

definition response_received :: "StreamOptions \<Rightarrow> callbacks \<Rightarrow> session \<Rightarrow> response \<Rightarrow> session" where
  "response_received options cbs s r =
     (if has_reader r then s\<lparr>reader := True, pending := AwaitRead\<rparr>
      else establish_failed options cbs s no_stream_error)"

text \<open>\<open>readStreamChunk\<close> behind its \<open>await\<close>.\<close>

definition read_settled :: "callbacks \<Rightarrow> session \<Rightarrow> read_result \<Rightarrow> session" where
  "read_settled cbs s rr =
     (case rr of
        Done \<Rightarrow> (emit (has_onComplete cbs) OnComplete (cleanup s))\<lparr>pending := Idle\<rparr>
      | Chunk chunk \<Rightarrow> emit (has_onChunk cbs) (OnChunk chunk) s
      | ReadFailed err \<Rightarrow>
          (if err_name err = ''AbortError'' then (cleanup s)\<lparr>pending := Idle\<rparr>
           else (emit (has_onError cbs) (OnError (''Read stream failed: '' @ message_text err))
                   (cleanup s))\<lparr>pending := Idle\<rparr>))"

text \<open>
  The cancel function: \<open>cleanup\<close>, the abort, \<open>reader?.releaseLock()\<close> and the call of
  \<open>onError\<close>, inside a \<open>try\<close> whose \<open>catch\<close> block writes to the console. The release is
  called when a reader is held; it matters when a read is pending, and there the outcome is
  the platform's (see \<^typ>\<open>release\<close>). A release that throws skips the call of \<open>onError\<close>.
  A release that rejects the pending read makes the \<open>catch\<close> block of \<open>readStreamChunk\<close> run
  with that error once the cancel function has returned. The callback is taken not to
  throw.
\<close>

definition cancelRequest :: "callbacks \<Rightarrow> session \<Rightarrow> release \<Rightarrow> session" where
  "cancelRequest cbs s rel =
     (let s1 = (cleanup s)\<lparr>aborted := True\<rparr>;
          reported = emit (has_onError cbs) (OnError ''Stream request cancelled manually'') s1
      in if reader s1 \<and> pending s1 = AwaitRead then
           (case rel of
              ReadAlreadyFailed \<Rightarrow> reported
            | RejectsRead err \<Rightarrow> read_settled cbs reported (ReadFailed err)
            | Throws err \<Rightarrow> emit True (ConsoleCancelFailed err) s1)
         else reported)"

text \<open>
  One reaction of the session. An input that settles something the session is not
  waiting for cannot occur and changes nothing.
\<close>

definition step :: "StreamOptions \<Rightarrow> callbacks \<Rightarrow> session \<Rightarrow> input \<Rightarrow> session" where
  "step options cbs s i =
     (case i of
        Responded r \<Rightarrow>
          (if pending s = AwaitResponse then response_received options cbs s r else s)
      | Rejected err \<Rightarrow>
          (if pending s = AwaitResponse then establish_failed options cbs s err else s)
      | TimerFired \<Rightarrow> (if pending s = AwaitTimer then makeRequest s else s)
      | ReadSettled rr \<Rightarrow> (if pending s = AwaitRead then read_settled cbs s rr else s)
      | CancelCalled rel \<Rightarrow> cancelRequest cbs s rel
      | SignalAborted \<Rightarrow> (if listening s then s\<lparr>aborted := True\<rparr> else s))"

text \<open>
  A call of the function that \<open>createStreamRequest\<close> returns, up to its first suspension:
  the caller's signal is wired to the controller and \<open>makeRequest\<close> is entered.
\<close>

definition createStreamRequest :: "StreamOptions \<Rightarrow> session" where
  "createStreamRequest options =
     makeRequest
       \<lparr>aborted = (opt_signal options = Some True),
        listening = (opt_signal options = Some False),
        reader = False, attempts = 0, pending = Idle, trace = []\<rparr>"

definition run :: "StreamOptions \<Rightarrow> callbacks \<Rightarrow> input list \<Rightarrow> session" where
  "run options cbs inputs = foldl (step options cbs) (createStreamRequest options) inputs"

section \<open>Notions used to state the properties\<close>

subsection \<open>Occurrences and payloads\<close>

text \<open>An occurrence of \<open>sep\<close> somewhere in a text.\<close>

fun occurs :: "string \<Rightarrow> string \<Rightarrow> bool" where
  "occurs sep [] = (sep = [])"
| "occurs sep (c # cs) = (startsWith sep (c # cs) \<or> occurs sep cs)"

text \<open>
  The suffix of a text that follows the last occurrence of \<open>sep\<close>, and the whole text when
  \<open>sep\<close> does not occur: an occurrence further right takes precedence over one at the head.
\<close>

fun after_last :: "string \<Rightarrow> string \<Rightarrow> string" where
  "after_last sep [] = []"
| "after_last sep (c # cs) =
     (if occurs sep cs then after_last sep cs
      else if startsWith sep (c # cs) then drop (length sep) (c # cs)
      else c # cs)"

text \<open>
  The payload of a \<open>data:\<close> line, given what follows the prefix: one leading space is
  removed, further spaces stay.
\<close>

definition strip_one_space :: "string \<Rightarrow> string" where
  "strip_one_space r = (case r of [] \<Rightarrow> [] | c # r' \<Rightarrow> if c = SP then r' else c # r')"

text \<open>The payloads of the \<open>data:\<close> lines among the lines of a block, in encounter order.\<close>

definition data_payloads :: "string list \<Rightarrow> string list" where
  "data_payloads ls = map (\<lambda>l. strip_one_space (drop 5 l)) (filter (startsWith ''data:'') ls)"

subsection \<open>Texts made of data lines\<close>

text \<open>
  A text that consists of \<open>data:\<close> lines and blank-line separators only is given by its
  blocks, each block by the payloads of its lines (what follows the prefix \<open>data:\<close>). It is
  well formed when every block has a line and no payload contains a line feed.
\<close>

definition data_line :: "string \<Rightarrow> string" where
  "data_line p = ''data:'' @ p"

definition block_text :: "string list \<Rightarrow> string" where
  "block_text b = join [NL] (map data_line b)"

definition sse_text :: "string list list \<Rightarrow> string" where
  "sse_text bs = concat (map (\<lambda>b. block_text b @ [NL, NL]) bs)"

definition well_formed :: "string list list \<Rightarrow> bool" where
  "well_formed bs = list_all (\<lambda>b. b \<noteq> [] \<and> list_all (\<lambda>p. NL \<notin> set p) b) bs"

text \<open>The joined data string of a block.\<close>

definition joined_data :: "string list \<Rightarrow> string" where
  "joined_data b = join [NL] (map strip_one_space b)"

text \<open>Every line feed of the text is followed by a character that is no line feed.\<close>

fun single_breaks :: "string \<Rightarrow> bool" where
  "single_breaks [] = True"
| "single_breaks (c # cs) =
     (if c = NL then cs \<noteq> [] \<and> hd cs \<noteq> NL \<and> single_breaks cs else single_breaks cs)"

subsection \<open>Numeric content\<close>

text \<open>
  The content of a \<open>retry:\<close> line is numeric when, trimmed and less one sign, it is a
  non-empty run of decimal digits. It has a leading integer when, trimmed and less one
  sign, it starts with a decimal digit.
\<close>

definition unsigned :: "string \<Rightarrow> string" where
  "unsigned t = (if t \<noteq> [] \<and> (hd t = CHR ''-'' \<or> hd t = CHR ''+'') then tl t else t)"

definition numeric :: "string \<Rightarrow> bool" where
  "numeric c = (unsigned (trim c) \<noteq> [] \<and> list_all is_digit (unsigned (trim c)))"

definition leading_integer :: "string \<Rightarrow> bool" where
  "leading_integer c = (unsigned (trim c) \<noteq> [] \<and> is_digit (hd (unsigned (trim c))))"

subsection \<open>The stateful parser with trimmed segments\<close>

text \<open>
  The reading of the stateful parser in which a segment is trimmed and the trimmed segment
  is what the frame parser gets. It differs from \<^const>\<open>block_events\<close> and \<^const>\<open>feed\<close> in the
  argument of \<^const>\<open>parseSSEEvent\<close> only.
\<close>

definition block_events_trimmed :: "string \<Rightarrow> SSEEvent list" where
  "block_events_trimmed eventBlock =
     (if trim eventBlock = [] then []
      else (case parseSSEEvent (trim eventBlock) of None \<Rightarrow> [] | Some parsed \<Rightarrow> [parsed]))"

definition feed_trimmed :: "string \<Rightarrow> string \<Rightarrow> string \<times> SSEEvent list" where
  "feed_trimmed buffer chunk =
     (let parts = js_split [NL, NL] (buffer @ chunk);
          popped = (if parts = [] then [] else last parts)
      in (popped, concat (map block_events_trimmed (butlast parts))))"

subsection \<open>Scenarios of a session\<close>

text \<open>
  An establishment failure: the request is rejected with an error that is no cancellation,
  or it resolves with a response that yields no reader.
\<close>

definition establishment_failure :: "input \<Rightarrow> bool" where
  "establishment_failure i =
     (case i of
        Rejected err \<Rightarrow> err_name err \<noteq> ''CanceledError'' \<and> err_code err \<noteq> Some ''ERR_CANCELED''
      | Responded r \<Rightarrow> \<not> has_reader r
      | _ \<Rightarrow> False)"

text \<open>Each of the given attempts settles and the retry timer fires after it.\<close>

definition retry_rounds :: "input list \<Rightarrow> input list" where
  "retry_rounds fs = concat (map (\<lambda>f. [f, TimerFired]) fs)"

text \<open>The reads of an open stream that deliver the given decoded chunks.\<close>

definition chunk_reads :: "string list \<Rightarrow> input list" where
  "chunk_reads chunks = map (\<lambda>c. ReadSettled (Chunk c)) chunks"

text \<open>
  What a platform that honours the abort signal still delivers once the signal is
  aborted: a pending read of the aborted request fails with an \<open>AbortError\<close> and yields
  neither data nor the end of the stream. The cancel function is not called again.
\<close>

fun quiet_after_abort :: "input \<Rightarrow> bool" where
  "quiet_after_abort (ReadSettled (Chunk c)) = False"
| "quiet_after_abort (ReadSettled Done) = False"
| "quiet_after_abort (ReadSettled (ReadFailed err)) = (err_name err = ''AbortError'')"
| "quiet_after_abort (CancelCalled rel) = False"
| "quiet_after_abort i = True"

section \<open>Splitting\<close>

lemma js_split_nonempty: "js_split (d # ds) s \<noteq> []"
  by (cases s) (auto split: list.splits)

text \<open>Induction along the search of \<^const>\<open>js_split\<close>: a match skips the separator.\<close>

lemma split_induct [case_names Nil Match Skip]:
  assumes "P []"
    and "\<And>c cs. startsWith (d # ds) (c # cs) \<Longrightarrow> P (drop (length ds) cs) \<Longrightarrow> P (c # cs)"
    and "\<And>c cs. \<not> startsWith (d # ds) (c # cs) \<Longrightarrow> P cs \<Longrightarrow> P (c # cs)"
  shows "P s"
proof (induction s rule: length_induct)
  case (1 xs)
  show ?case
  proof (cases xs)
    case Nil
    then show ?thesis using assms(1) by simp
  next
    case (Cons c cs)
    have a: "P (drop (length ds) cs)" using 1 Cons by simp
    have b: "P cs" using 1 Cons by simp
    show ?thesis using assms(2)[of c cs] assms(3)[of c cs] a b Cons by blast
  qed
qed

lemma js_split_Match:
  "startsWith (d # ds) (c # cs) \<Longrightarrow>
   js_split (d # ds) (c # cs) = [] # js_split (d # ds) (drop (length ds) cs)"
  by simp

lemma js_split_Skip:
  "\<not> startsWith (d # ds) (c # cs) \<Longrightarrow> js_split (d # ds) cs = p # ps \<Longrightarrow>
   js_split (d # ds) (c # cs) = (c # p) # ps"
  by simp

lemma startsWith_length: "startsWith p s \<Longrightarrow> length p \<le> length s"
  by (metis startsWith_def length_take min.cobounded1)

lemma startsWith_split: "startsWith p s \<Longrightarrow> s = p @ drop (length p) s"
  by (metis startsWith_def append_take_drop_id)

lemma startsWith_append: "startsWith p s \<Longrightarrow> startsWith p (s @ t)"
  using startsWith_length[of p s] by (simp add: startsWith_def)

lemma startsWith_append_only:
  "\<not> startsWith p s \<Longrightarrow> startsWith p (s @ t) \<Longrightarrow> length s < length p"
  by (metis startsWith_def linorder_not_less take_append diff_is_0_eq' take_0 append_Nil2)

lemma join_Cons: "ys \<noteq> [] \<Longrightarrow> join sep (x # ys) = x @ sep @ join sep ys"
  by (cases ys) simp_all

lemma join_Cons_head: "join sep ((c # p) # ps) = c # join sep (p # ps)"
  by (cases ps) simp_all

text \<open>Joining the segments with the separator gives the text back.\<close>

lemma join_js_split: "join (d # ds) (js_split (d # ds) s) = s"
proof (induction s rule: split_induct[where d = d and ds = ds])
  case Nil
  show ?case by simp
next
  case (Match c cs)
  have "c # cs = (d # ds) @ drop (length (d # ds)) (c # cs)"
    using startsWith_split[OF Match(1)] .
  then have eq: "c # cs = (d # ds) @ drop (length ds) cs" by simp
  have "join (d # ds) (js_split (d # ds) (c # cs))
        = (d # ds) @ join (d # ds) (js_split (d # ds) (drop (length ds) cs))"
    by (simp only: js_split_Match[OF Match(1)] join_Cons[OF js_split_nonempty] append_Nil)
  also have "\<dots> = (d # ds) @ drop (length ds) cs"
    using Match(2) by simp
  also have "\<dots> = c # cs"
    using eq by simp
  finally show ?case .
next
  case (Skip c cs)
  obtain p ps where ps: "js_split (d # ds) cs = p # ps"
    using js_split_nonempty[of d ds cs] by (cases "js_split (d # ds) cs") auto
  have "join (d # ds) (p # ps) = cs" using Skip(2) ps by simp
  then show ?case
    by (simp only: js_split_Skip[OF Skip(1) ps] join_Cons_head)
qed

lemma js_split_single: "js_split (d # ds) s = [p] \<Longrightarrow> p = s"
  using join_js_split[of d ds s] by simp

lemma js_split_short: "length s < length (d # ds) \<Longrightarrow> js_split (d # ds) s = [s]"
proof (induction s)
  case Nil
  show ?case by simp
next
  case (Cons c cs)
  have "\<not> startsWith (d # ds) (c # cs)"
    using Cons.prems startsWith_length[of "d # ds" "c # cs"] by auto
  moreover have "js_split (d # ds) cs = [cs]" using Cons by simp
  ultimately show ?case by simp
qed

text \<open>
  Splitting a text that grows at its end: the segments closed so far stay, and the open
  last segment is split again together with the new text.
\<close>

lemma js_split_append:
  "js_split (d # ds) (a @ b) =
     butlast (js_split (d # ds) a) @ js_split (d # ds) (last (js_split (d # ds) a) @ b)"
proof (induction a rule: split_induct[where d = d and ds = ds])
  case Nil
  show ?case by simp
next
  case (Match c cs)
  have len: "length ds \<le> length cs"
    using startsWith_length[OF Match(1)] by simp
  have sw: "startsWith (d # ds) (c # (cs @ b))"
    using startsWith_append[OF Match(1), of b] by simp
  have "js_split (d # ds) ((c # cs) @ b) = [] # js_split (d # ds) (drop (length ds) cs @ b)"
    using js_split_Match[OF sw] len by simp
  then show ?case
    using Match(2) by (simp only: js_split_Match[OF Match(1)]) (simp add: js_split_nonempty)
next
  case (Skip c cs)
  obtain p ps where ps: "js_split (d # ds) cs = p # ps"
    using js_split_nonempty[of d ds cs] by (cases "js_split (d # ds) cs") auto
  note whole = js_split_Skip[OF Skip(1) ps]
  show ?case
  proof (cases "startsWith (d # ds) (c # (cs @ b))")
    case True
    have "length (c # cs) < length (d # ds)"
      using startsWith_append_only[OF Skip(1), of b] True by simp
    then have "js_split (d # ds) (c # cs) = [c # cs]"
      by (rule js_split_short)
    then show ?thesis by (simp del: js_split.simps)
  next
    case False
    show ?thesis
    proof (cases ps)
      case Nil
      then have "p = cs" using ps js_split_single by simp
      then show ?thesis using ps Nil by (simp only: whole) simp
    next
      case (Cons q qs)
      obtain r rs where rs: "js_split (d # ds) (cs @ b) = r # rs"
        using js_split_nonempty[of d ds "cs @ b"] by (cases "js_split (d # ds) (cs @ b)") auto
      have "js_split (d # ds) ((c # cs) @ b) = (c # r) # rs"
        using js_split_Skip[OF False rs] by simp
      then show ?thesis using Skip(2) ps Cons rs by (simp only: whole) simp
    qed
  qed
qed

lemma last_js_split_no_occurs: "\<not> occurs (d # ds) (last (js_split (d # ds) s))"
proof (induction s rule: split_induct[where d = d and ds = ds])
  case Nil
  show ?case by simp
next
  case (Match c cs)
  then show ?case
    by (simp only: js_split_Match[OF Match(1)]) (simp add: js_split_nonempty)
next
  case (Skip c cs)
  obtain p ps where ps: "js_split (d # ds) cs = p # ps"
    using js_split_nonempty[of d ds cs] by (cases "js_split (d # ds) cs") auto
  note whole = js_split_Skip[OF Skip(1) ps]
  show ?case
  proof (cases ps)
    case Nil
    then have "p = cs" using ps js_split_single by simp
    then show ?thesis using Skip ps Nil by (simp only: whole) simp
  next
    case (Cons q qs)
    then show ?thesis using Skip(2) ps by (simp only: whole) simp
  qed
qed

lemma no_occurs_js_split: "\<not> occurs (d # ds) s \<Longrightarrow> js_split (d # ds) s = [s]"
  by (induction s) auto

lemma last_js_split_single:
  "js_split (d # ds) (last (js_split (d # ds) s)) = [last (js_split (d # ds) s)]"
  by (rule no_occurs_js_split[OF last_js_split_no_occurs])

lemma occurs_js_split: "occurs (d # ds) s \<Longrightarrow> js_split (d # ds) s \<noteq> [s]"
proof (induction s rule: split_induct[where d = d and ds = ds])
  case Nil
  then show ?case by simp
next
  case (Match c cs)
  show ?case by (simp only: js_split_Match[OF Match(1)]) simp
next
  case (Skip c cs)
  obtain p ps where ps: "js_split (d # ds) cs = p # ps"
    using js_split_nonempty[of d ds cs] by (cases "js_split (d # ds) cs") auto
  have "occurs (d # ds) cs" using Skip(1,3) by simp
  then have "js_split (d # ds) cs \<noteq> [cs]" by (rule Skip(2))
  then show ?case using ps by (simp only: js_split_Skip[OF Skip(1) ps]) auto
qed

lemma after_last_no_occurs: "\<not> occurs sep s \<Longrightarrow> after_last sep s = s"
  by (induction s) auto

lemma startsWith_NN: "startsWith [NL, NL] s = (\<exists>r. s = NL # NL # r)"
  by (cases s; cases "tl s") (auto simp: startsWith_def)

lemma startsWith_NNN: "startsWith [NL, NL, NL] s = (\<exists>r. s = NL # NL # NL # r)"
  by (cases s; cases "tl s"; cases "tl (tl s)") (auto simp: startsWith_def)

text \<open>
  Without three line feeds in a row no two occurrences of the blank line overlap, and the
  last segment of the split is what follows the last occurrence.
\<close>

lemma last_js_split_after_last:
  "\<not> occurs [NL, NL, NL] s \<Longrightarrow> last (js_split [NL, NL] s) = after_last [NL, NL] s"
proof (induction s rule: split_induct[where d = NL and ds = "[NL]"])
  case Nil
  show ?case by simp
next
  case (Match c cs)
  obtain r where r: "c # cs = NL # NL # r" using Match(1) startsWith_NN by auto
  have no3: "\<not> startsWith [NL, NL, NL] (NL # NL # r)" and nor: "\<not> occurs [NL, NL, NL] r"
    using Match(3) r by auto
  have nsw: "\<not> startsWith [NL, NL] (NL # r)"
    using no3 by (auto simp: startsWith_NN startsWith_NNN)
  have ih: "last (js_split [NL, NL] r) = after_last [NL, NL] r"
    using Match(2) nor r by simp
  have sw: "startsWith [NL, NL] (NL # NL # r)" by (simp add: startsWith_NN)
  have "js_split [NL, NL] (NL # NL # r) = [] # js_split [NL, NL] r"
    using js_split_Match[OF sw] by simp
  then have lhs: "last (js_split [NL, NL] (c # cs)) = last (js_split [NL, NL] r)"
    using r js_split_nonempty[of NL "[NL]" r] by (simp del: js_split.simps)
  have rhs: "after_last [NL, NL] (NL # NL # r) = after_last [NL, NL] r"
  proof (cases "occurs [NL, NL] r")
    case True
    then show ?thesis using nsw by (cases r) auto
  next
    case False
    then show ?thesis using nsw sw after_last_no_occurs[OF False] by simp
  qed
  show ?case using lhs rhs ih r by simp
next
  case (Skip c cs)
  obtain p ps where ps: "js_split [NL, NL] cs = p # ps"
    using js_split_nonempty[of NL "[NL]" cs] by (cases "js_split [NL, NL] cs") auto
  note whole = js_split_Skip[OF Skip(1) ps]
  have ih: "last (js_split [NL, NL] cs) = after_last [NL, NL] cs"
    using Skip(2,3) by simp
  show ?case
  proof (cases "occurs [NL, NL] cs")
    case True
    then have "ps \<noteq> []"
      using occurs_js_split[OF True] ps js_split_single[of NL "[NL]" cs p] by auto
    then show ?thesis using ih ps True by (simp only: whole) simp
  next
    case False
    then have "js_split [NL, NL] cs = [cs]" by (rule no_occurs_js_split)
    then have "p = cs" "ps = []" using ps by auto
    then show ?thesis using False Skip(1) by (simp only: whole) simp
  qed
qed

section \<open>The frame parser: data lines\<close>

lemma startsWith_space: "(if startsWith '' '' r then drop 1 r else r) = strip_one_space r"
  by (cases r) (auto simp: startsWith_def strip_one_space_def)

lemma parse_line_snd: "snd (parse_line st l) = snd st @ data_payloads [l]"
  by (simp add: parse_line_def data_payloads_def Let_def startsWith_space split: option.split)

lemma parse_line_data: "data (fst (parse_line st l)) = data (fst st)"
  by (simp add: parse_line_def Let_def split: option.split)

lemma foldl_parse_line_snd: "snd (foldl parse_line st ls) = snd st @ data_payloads ls"
proof (induction ls arbitrary: st)
  case Nil
  show ?case by (simp add: data_payloads_def)
next
  case (Cons l ls)
  have "data_payloads (l # ls) = data_payloads [l] @ data_payloads ls"
    by (simp add: data_payloads_def)
  with Cons show ?case by (simp add: parse_line_snd)
qed

lemma foldl_parse_line_data: "data (fst (foldl parse_line st ls)) = data (fst st)"
  by (induction ls arbitrary: st) (simp_all add: parse_line_data)

lemma parse_lines_snd: "snd (parse_lines ls) = data_payloads ls"
  by (simp add: parse_lines_def foldl_parse_line_snd)

lemma parse_lines_data: "data (fst (parse_lines ls)) = None"
  by (simp add: parse_lines_def foldl_parse_line_data empty_event_def)

lemma finish_event_data:
  "(case finish_event st of None \<Rightarrow> None | Some ev \<Rightarrow> data ev) =
     (if snd st = [] then data (fst st) else Some (join [NL] (snd st)))"
  by (auto simp: finish_event_def has_keys_def Let_def)

text \<open>
  C6. The data field of the event parsed from a block is the join, with a line feed, of the
  payloads of the block's \<open>data:\<close> lines in encounter order, where the payload of a line is
  what follows the five characters of the prefix less one leading space; a block with no
  \<open>data:\<close> line has no data field. The block \<open>data: a\<newline>data: b\<newline>\<newline>\<close> yields \<open>a\<newline>b\<close>, and of two
  leading spaces the second is kept.
\<close>

theorem parseSSEEvent_data_field:
  "(case parseSSEEvent block of None \<Rightarrow> None | Some ev \<Rightarrow> data ev) =
     (if data_payloads (js_split [NL] block) = [] then None
      else Some (join [NL] (data_payloads (js_split [NL] block))))
   \<and> strip_one_space (SP # r) = r
   \<and> data_payloads [''data:  x'', ''id: 1'', ''data:y''] = ['' x'', ''y'']
   \<and> (case parseSSEEvent ''data: a\<newline>data: b\<newline>\<newline>'' of None \<Rightarrow> None | Some ev \<Rightarrow> data ev)
        = Some ''a\<newline>b''"
proof -
  have ex: "(case parseSSEEvent ''data: a\<newline>data: b\<newline>\<newline>'' of None \<Rightarrow> None | Some ev \<Rightarrow> data ev)
        = Some ''a\<newline>b''"
    by code_simp
  have pl: "data_payloads [''data:  x'', ''id: 1'', ''data:y''] = ['' x'', ''y'']"
    by (simp add: data_payloads_def startsWith_def strip_one_space_def)
  have gen: "(case parseSSEEvent block of None \<Rightarrow> None | Some ev \<Rightarrow> data ev) =
     (if data_payloads (js_split [NL] block) = [] then None
      else Some (join [NL] (data_payloads (js_split [NL] block))))"
    by (simp add: parseSSEEvent_def finish_event_data parse_lines_snd parse_lines_data
        del: js_split.simps)
  have sp: "strip_one_space (SP # r) = r"
    by (simp add: strip_one_space_def)
  show ?thesis using ex pl gen sp by (simp only: simp_thms)
qed

section \<open>The stateful parser: chunk boundaries and the buffer\<close>

lemma feed_eq:
  "feed b c = (last (js_split [NL, NL] (b @ c)),
               concat (map block_events (butlast (js_split [NL, NL] (b @ c)))))"
  by (simp add: feed_def Let_def js_split_nonempty del: js_split.simps)

lemma feed_all_eq:
  "js_split [NL, NL] b = [b] \<Longrightarrow>
   feed_all b cs = (last (js_split [NL, NL] (b @ concat cs)),
                    concat (map block_events (butlast (js_split [NL, NL] (b @ concat cs)))))"
proof (induction cs arbitrary: b)
  case Nil
  then show ?case by (simp del: js_split.simps)
next
  case (Cons c cs)
  let ?S = "js_split [NL, NL]"
  let ?b' = "last (?S (b @ c))"
  have step: "?S ((b @ c) @ concat cs) = butlast (?S (b @ c)) @ ?S (?b' @ concat cs)"
    by (rule js_split_append)
  have ne: "?S (?b' @ concat cs) \<noteq> []" by (rule js_split_nonempty)
  have ih: "feed_all ?b' cs = (last (?S (?b' @ concat cs)),
              concat (map block_events (butlast (?S (?b' @ concat cs)))))"
    by (rule Cons.IH[OF last_js_split_single])
  have "feed_all b (c # cs) =
          (last (?S (?b' @ concat cs)),
           concat (map block_events (butlast (?S (b @ c)))) @
           concat (map block_events (butlast (?S (?b' @ concat cs)))))"
    by (simp add: feed_eq ih Let_def del: js_split.simps)
  also have "\<dots> = (last (?S ((b @ c) @ concat cs)),
                    concat (map block_events (butlast (?S ((b @ c) @ concat cs)))))"
    using ne by (simp only: step) (simp add: butlast_append del: js_split.simps)
  finally show ?case by (simp del: js_split.simps)
qed

lemma createSSEParser_eq:
  "createSSEParser chunks =
     (last (js_split [NL, NL] (concat chunks)),
      concat (map block_events (butlast (js_split [NL, NL] (concat chunks)))))"
proof -
  have e: "js_split [NL, NL] [] = [[]]" by simp
  show ?thesis
    unfolding createSSEParser_def
    by (simp only: feed_all_eq[OF e]) (simp del: js_split.simps)
qed

text \<open>
  C2. Feeding one parser instance the chunks of a text in order emits the same events, in
  the same order, as feeding it the whole text in one call, and leaves the same buffer: the
  unterminated last block stays in the buffer either way. This holds for every way of
  cutting the text, empty chunks included.
\<close>

theorem createSSEParser_chunking:
  "createSSEParser chunks = createSSEParser [concat chunks]"
  by (simp only: createSSEParser_eq) (simp del: js_split.simps)

text \<open>
  C10, as stated, fails: after the single chunk \<open>a\<newline>\<newline>\<newline>\<close> the buffer holds one line feed, while
  nothing follows the last occurrence of the blank line in that text.
\<close>

theorem createSSEParser_buffer_counterexample:
  "fst (createSSEParser [''a\<newline>\<newline>\<newline>'']) \<noteq> after_last [NL, NL] (concat [''a\<newline>\<newline>\<newline>''])"
  by (simp add: createSSEParser_def feed_def startsWith_def)

text \<open>
  C10, amended. After every call the buffer contains no blank-line separator, and it is
  the last segment of the left-to-right, non-overlapping split of all the text fed so far;
  when that text has no three line feeds in a row, this is the suffix that follows the
  last occurrence of the separator (the whole text when there is none).
\<close>

theorem createSSEParser_buffer:
  "\<not> occurs [NL, NL] (fst (createSSEParser chunks))
   \<and> fst (createSSEParser chunks) = last (js_split [NL, NL] (concat chunks))
   \<and> (\<not> occurs [NL, NL, NL] (concat chunks) \<longrightarrow>
        fst (createSSEParser chunks) = after_last [NL, NL] (concat chunks))"
proof -
  have b: "fst (createSSEParser chunks) = last (js_split [NL, NL] (concat chunks))"
    by (simp only: createSSEParser_eq fst_conv)
  show ?thesis
    using last_js_split_no_occurs[of NL "[NL]" "concat chunks"]
      last_js_split_after_last[of "concat chunks"]
    by (simp only: b) simp
qed

theorem createSSEParser_buffer_witness:
  "\<not> occurs [NL, NL, NL] (concat [''id: 1\<newline>\<newline>da'', ''ta: x''])
   \<and> fst (createSSEParser [''id: 1\<newline>\<newline>da'', ''ta: x'']) = ''data: x''
   \<and> after_last [NL, NL] (concat [''id: 1\<newline>\<newline>da'', ''ta: x'']) = ''data: x''"
proof -
  have h: "\<not> occurs [NL, NL, NL] (concat [''id: 1\<newline>\<newline>da'', ''ta: x''])"
    by (simp add: startsWith_def)
  have v: "after_last [NL, NL] (concat [''id: 1\<newline>\<newline>da'', ''ta: x'']) = ''data: x''"
    by (simp add: startsWith_def)
  have b: "fst (createSSEParser [''id: 1\<newline>\<newline>da'', ''ta: x''])
           = after_last [NL, NL] (concat [''id: 1\<newline>\<newline>da'', ''ta: x''])"
    using createSSEParser_buffer[of "[''id: 1\<newline>\<newline>da'', ''ta: x'']"] h by blast
  show ?thesis using h b v by (simp only: simp_thms)
qed

section \<open>The stateful parser: what is parsed\<close>

lemma block_events_filter:
  "concat (map block_events segs) =
     map the (filter (\<lambda>e. e \<noteq> None) (map parseSSEEvent (filter (\<lambda>seg. trim seg \<noteq> []) segs)))"
  by (induction segs) (auto simp: block_events_def split: option.splits)

text \<open>
  C9, as stated, fails where a segment has surrounding white space: fed \<open> data: x\<newline>\<newline>\<close> (with a
  leading space), the parser emits nothing, while parsing the trimmed segment would emit an
  event with data \<open>x\<close>.
\<close>

theorem feed_segments_counterexample:
  "snd (feed [] '' data: x\<newline>\<newline>'') \<noteq> snd (feed_trimmed [] '' data: x\<newline>\<newline>'')"
  by (simp add: feed_def feed_trimmed_def block_events_def block_events_trimmed_def trim_def
      is_ws_def parseSSEEvent_def parse_lines_def parse_line_def finish_event_def has_keys_def
      empty_event_def startsWith_def)

text \<open>
  C9, amended. In every call the last segment of the blank-line split becomes the buffer;
  of the other segments those whose trimmed form is empty are skipped, each remaining
  segment is parsed by the frame parser as it stands, untrimmed, and every event the parse
  yields is passed whole to the callback, in order. For a segment without surrounding
  white space this is the same as parsing the trimmed segment.
\<close>

theorem feed_segments:
  "feed buffer chunk =
     (last (js_split [NL, NL] (buffer @ chunk)),
      map the (filter (\<lambda>e. e \<noteq> None)
        (map parseSSEEvent
          (filter (\<lambda>seg. trim seg \<noteq> []) (butlast (js_split [NL, NL] (buffer @ chunk)))))))
   \<and> (trim seg = seg \<longrightarrow> block_events seg = block_events_trimmed seg)"
  by (simp add: feed_eq block_events_filter block_events_def block_events_trimmed_def
      del: js_split.simps)

theorem feed_segments_witness:
  "trim ''data: x'' = ''data: x''
   \<and> block_events ''data: x'' = block_events_trimmed ''data: x''
   \<and> feed ''da'' ''ta: x\<newline>\<newline>id: 1'' =
       (''id: 1'', [\<lparr>event = None, data = Some ''x'', id_field = None, retry = None\<rparr>])"
proof -
  have t: "trim ''data: x'' = ''data: x''" by (simp add: trim_def is_ws_def)
  have b: "block_events ''data: x'' = block_events_trimmed ''data: x''"
    using feed_segments[of "[]" "[]" "''data: x''"] t by blast
  have f: "feed ''da'' ''ta: x\<newline>\<newline>id: 1'' =
       (''id: 1'', [\<lparr>event = None, data = Some ''x'', id_field = None, retry = None\<rparr>])"
    by (simp add: feed_def block_events_def trim_def is_ws_def
      parseSSEEvent_def parse_lines_def parse_line_def finish_event_def has_keys_def
      empty_event_def startsWith_def)
  show ?thesis using t b f by (simp only: simp_thms)
qed

section \<open>The stateless splitter on data lines\<close>

lemma js_split_block:
  "single_breaks a \<Longrightarrow> js_split [NL, NL] (a @ NL # NL # r) = a # js_split [NL, NL] r"
proof (induction a)
  case Nil
  show ?case by (simp add: startsWith_def)
next
  case (Cons c cs)
  have "\<not> startsWith [NL, NL] (c # cs @ NL # NL # r)"
    using Cons.prems by (cases cs) (auto simp: startsWith_def split: if_splits)
  then show ?case using Cons by (simp split: if_splits)
qed

lemma single_breaks_no_NL: "NL \<notin> set s \<Longrightarrow> single_breaks s"
  by (induction s) auto

lemma single_breaks_append:
  "NL \<notin> set s \<Longrightarrow> t \<noteq> [] \<Longrightarrow> hd t \<noteq> NL \<Longrightarrow> single_breaks t \<Longrightarrow> single_breaks (s @ NL # t)"
  by (induction s) auto

lemma data_line_no_NL: "NL \<notin> set p \<Longrightarrow> NL \<notin> set (data_line p)"
  by (auto simp: data_line_def)

lemma block_text_Cons:
  "block_text (p # q # qs) = data_line p @ NL # block_text (q # qs)"
  by (simp add: block_text_def)

lemma block_text_hd: "b \<noteq> [] \<Longrightarrow> block_text b \<noteq> [] \<and> hd (block_text b) \<noteq> NL"
proof (cases b)
  case Nil
  assume "b \<noteq> []"
  with Nil show ?thesis by simp
next
  case (Cons p ps)
  then show ?thesis by (cases ps) (simp_all add: block_text_def data_line_def)
qed

lemma single_breaks_block_text:
  "b \<noteq> [] \<Longrightarrow> list_all (\<lambda>p. NL \<notin> set p) b \<Longrightarrow> single_breaks (block_text b)"
proof (induction b rule: induct_list012)
  case 1
  then show ?case by simp
next
  case (2 p)
  then show ?case by (simp add: block_text_def single_breaks_no_NL data_line_no_NL)
next
  case (3 p q qs)
  have a: "NL \<notin> set (data_line p)" using "3.prems" by (simp add: data_line_no_NL)
  have b: "single_breaks (block_text (q # qs))" using 3 by simp
  have c: "block_text (q # qs) \<noteq> [] \<and> hd (block_text (q # qs)) \<noteq> NL"
    by (rule block_text_hd) simp
  show ?case
    using single_breaks_append[OF a _ _ b] c by (simp only: block_text_Cons) simp
qed

lemma js_split_sse_text:
  "well_formed bs \<Longrightarrow> js_split [NL, NL] (sse_text bs) = map block_text bs @ [[]]"
proof (induction bs)
  case Nil
  show ?case by (simp add: sse_text_def)
next
  case (Cons b bs)
  have sb: "single_breaks (block_text b)"
    using Cons.prems by (simp add: well_formed_def single_breaks_block_text)
  have wf: "well_formed bs" using Cons.prems by (simp add: well_formed_def)
  have "sse_text (b # bs) = block_text b @ NL # NL # sse_text bs"
    by (simp add: sse_text_def)
  then show ?case using js_split_block[OF sb, of "sse_text bs"] Cons.IH[OF wf]
    by (simp del: js_split.simps)
qed

lemma js_split_line_last: "NL \<notin> set l \<Longrightarrow> js_split [NL] l = [l]"
  by (induction l) (auto simp: startsWith_def)

lemma js_split_line: "NL \<notin> set l \<Longrightarrow> js_split [NL] (l @ NL # r) = l # js_split [NL] r"
  by (induction l) (auto simp: startsWith_def)

lemma js_split_block_text:
  "b \<noteq> [] \<Longrightarrow> list_all (\<lambda>p. NL \<notin> set p) b \<Longrightarrow> js_split [NL] (block_text b) = map data_line b"
proof (induction b rule: induct_list012)
  case 1
  then show ?case by simp
next
  case (2 p)
  then show ?case
    by (simp add: block_text_def js_split_line_last data_line_no_NL del: js_split.simps)
next
  case (3 p q qs)
  have a: "NL \<notin> set (data_line p)" using "3.prems" by (simp add: data_line_no_NL)
  have "js_split [NL] (block_text (q # qs)) = map data_line (q # qs)" using 3 by simp
  then show ?case
    using js_split_line[OF a, of "block_text (q # qs)"]
    by (simp only: block_text_Cons) (simp del: js_split.simps)
qed

lemma parse_line_data_line: "fst (parse_line st (data_line p)) = fst st"
  by (simp add: parse_line_def data_line_def startsWith_def Let_def)

lemma foldl_parse_line_data_lines: "fst (foldl parse_line st (map data_line b)) = fst st"
  by (induction b arbitrary: st) (simp_all add: parse_line_data_line)

lemma data_payloads_data_lines: "data_payloads (map data_line b) = map strip_one_space b"
  by (induction b) (simp_all add: data_payloads_def data_line_def startsWith_def)

lemma parse_lines_data_lines:
  "parse_lines (map data_line b) = (empty_event, map strip_one_space b)"
  using foldl_parse_line_data_lines[of "(empty_event, [])" b] parse_lines_snd[of "map data_line b"]
  by (simp add: parse_lines_def data_payloads_data_lines prod_eq_iff)

lemma message_of_block_text:
  "b \<noteq> [] \<Longrightarrow> list_all (\<lambda>p. NL \<notin> set p) b \<Longrightarrow>
   message_of (block_text b) = (if joined_data b \<noteq> [] then [joined_data b] else [])"
  by (simp add: message_of_def parseSSEEvent_def js_split_block_text parse_lines_data_lines
      finish_event_def has_keys_def empty_event_def joined_data_def Let_def del: js_split.simps)

lemma messages_of_blocks:
  "well_formed bs \<Longrightarrow>
   concat (map (message_of \<circ> block_text) bs) = filter (\<lambda>d. d \<noteq> []) (map joined_data bs)"
  by (induction bs) (simp_all add: well_formed_def message_of_block_text)

lemma block_text_nonempty:
  "well_formed bs \<Longrightarrow> filter (\<lambda>b. b \<noteq> []) (map block_text bs) = map block_text bs"
  by (induction bs) (simp_all add: well_formed_def block_text_hd)

lemma single_breaks_no_occurs: "single_breaks a \<Longrightarrow> \<not> occurs [NL, NL] a"
  by (induction a) (auto simp: startsWith_NN split: if_splits)

lemma js_split_joined_blocks:
  "well_formed bs \<Longrightarrow> bs \<noteq> [] \<Longrightarrow>
   js_split [NL, NL] (join [NL, NL] (map block_text bs)) = map block_text bs"
proof (induction bs rule: induct_list012)
  case 1
  then show ?case by simp
next
  case (2 b)
  then have "single_breaks (block_text b)"
    by (simp add: well_formed_def single_breaks_block_text)
  then show ?case
    using no_occurs_js_split[OF single_breaks_no_occurs, of "block_text b"]
    by (simp del: js_split.simps)
next
  case (3 b c cs)
  have sb: "single_breaks (block_text b)"
    using "3.prems" by (simp add: well_formed_def single_breaks_block_text)
  have wf: "well_formed (c # cs)" using "3.prems" by (simp add: well_formed_def)
  have ih: "js_split [NL, NL] (join [NL, NL] (map block_text (c # cs))) = map block_text (c # cs)"
    using 3(2)[OF wf] by simp
  have "join [NL, NL] (map block_text (b # c # cs))
        = block_text b @ NL # NL # join [NL, NL] (map block_text (c # cs))"
    by simp
  then show ?case
    using js_split_block[OF sb, of "join [NL, NL] (map block_text (c # cs))"] ih
    by (simp del: js_split.simps join.simps)
qed

lemma parseSSEChunk_terminated_blocks:
  assumes wf: "well_formed bs"
  shows "parseSSEChunk (sse_text bs) = filter (\<lambda>d. d \<noteq> []) (map joined_data bs)"
  by (simp add: parseSSEChunk_def js_split_sse_text[OF wf] block_text_nonempty[OF wf]
      messages_of_blocks[OF wf] del: js_split.simps)

lemma parseSSEChunk_joined_blocks:
  assumes wf: "well_formed bs"
  shows "parseSSEChunk (join [NL, NL] (map block_text bs))
         = filter (\<lambda>d. d \<noteq> []) (map joined_data bs)"
proof (cases bs)
  case Nil
  then show ?thesis by (simp add: parseSSEChunk_def)
next
  case (Cons b bs')
  then have ne: "bs \<noteq> []" by simp
  show ?thesis
    by (simp add: parseSSEChunk_def js_split_joined_blocks[OF wf ne] block_text_nonempty[OF wf]
        messages_of_blocks[OF wf] del: js_split.simps)
qed

text \<open>
  C3, as stated, fails for a block whose joined data string is empty: the text \<open>data:\<newline>\<newline>\<close>
  is one well-formed block with the empty data string, and the callback is not invoked.
\<close>

theorem parseSSEChunk_data_blocks_counterexample:
  "well_formed [[[]]] \<and> parseSSEChunk (sse_text [[[]]]) \<noteq> map joined_data [[[]]]"
  by (simp add: well_formed_def sse_text_def block_text_def data_line_def joined_data_def
      strip_one_space_def parseSSEChunk_def message_of_def parseSSEEvent_def parse_lines_def
      parse_line_def finish_event_def has_keys_def empty_event_def startsWith_def)

text \<open>
  C3, amended. For every text of well-formed \<open>data:\<close> lines and blank-line separators,
  whether the last block is followed by a blank line or not, the stateless splitter invokes
  the callback once for every block whose joined data string is not empty, in source order,
  with that string; blocks whose joined data string is empty are passed over. On
  \<open>data: hello\<newline>\<newline>data: world\<newline>\<newline>\<close> it is invoked exactly twice, with \<open>hello\<close>, then \<open>world\<close>.
\<close>

theorem parseSSEChunk_data_blocks:
  "(well_formed bs \<longrightarrow>
      parseSSEChunk (sse_text bs) = filter (\<lambda>d. d \<noteq> []) (map joined_data bs)
      \<and> parseSSEChunk (join [NL, NL] (map block_text bs))
          = filter (\<lambda>d. d \<noteq> []) (map joined_data bs))
   \<and> parseSSEChunk ''data: hello\<newline>\<newline>data: world\<newline>\<newline>'' = [''hello'', ''world'']"
proof -
  have ex: "parseSSEChunk ''data: hello\<newline>\<newline>data: world\<newline>\<newline>'' = [''hello'', ''world'']"
    by code_simp
  show ?thesis
    using ex parseSSEChunk_terminated_blocks[of bs] parseSSEChunk_joined_blocks[of bs] by blast
qed

theorem parseSSEChunk_data_blocks_witness:
  "well_formed [['' a'', ''b''], [[]], [''c'']]
   \<and> sse_text [['' a'', ''b''], [[]], [''c'']]
       = ''data: a\<newline>data:b\<newline>\<newline>data:\<newline>\<newline>data:c\<newline>\<newline>''
   \<and> parseSSEChunk ''data: a\<newline>data:b\<newline>\<newline>data:\<newline>\<newline>data:c\<newline>\<newline>'' = [''a\<newline>b'', ''c'']"
proof -
  have wf: "well_formed [['' a'', ''b''], [[]], [''c'']]"
    by (simp add: well_formed_def)
  have tx: "sse_text [['' a'', ''b''], [[]], [''c'']]
            = ''data: a\<newline>data:b\<newline>\<newline>data:\<newline>\<newline>data:c\<newline>\<newline>''"
    by (simp add: sse_text_def block_text_def data_line_def)
  have jd: "filter (\<lambda>d. d \<noteq> []) (map joined_data [['' a'', ''b''], [[]], [''c'']])
            = [''a\<newline>b'', ''c'']"
    by (simp add: joined_data_def strip_one_space_def)
  have "parseSSEChunk (sse_text [['' a'', ''b''], [[]], [''c'']]) = [''a\<newline>b'', ''c'']"
    using parseSSEChunk_data_blocks[of "[['' a'', ''b''], [[]], [''c'']]"] wf jd by simp
  then show ?thesis using wf tx by (simp only: simp_thms)
qed

section \<open>The frame parser: retry lines\<close>

lemma trim_prefix:
  "dropWhile is_ws s = trim s @ rev (takeWhile is_ws (rev (dropWhile is_ws s)))"
  unfolding trim_def by (metis rev_append rev_rev_ident takeWhile_dropWhile_id)

lemma trim_no_leading_ws: "dropWhile is_ws (trim s) = trim s"
proof (cases "trim s")
  case Nil
  then show ?thesis by simp
next
  case (Cons x xs)
  have e: "dropWhile is_ws s = x # (xs @ rev (takeWhile is_ws (rev (dropWhile is_ws s))))"
    using trim_prefix[of s] Cons by (metis append_Cons)
  have ne: "dropWhile is_ws s \<noteq> []" using e by (metis list.distinct(1))
  have "hd (dropWhile is_ws s) = x" using e by (metis list.sel(1))
  then have "\<not> is_ws x" using hd_dropWhile[OF ne] by simp
  then show ?thesis using Cons by simp
qed

text \<open>The integer parse of the trimmed content fails exactly when it has no leading integer.\<close>

lemma parseInt_trim: "parseInt (trim c) = None \<longleftrightarrow> \<not> leading_integer c"
proof -
  have "takeWhile is_digit u = [] \<longleftrightarrow> \<not> (u \<noteq> [] \<and> is_digit (hd u))" for u
    by (cases u) auto
  then show ?thesis
    by (simp add: parseInt_def leading_integer_def unsigned_def trim_no_leading_ws Let_def)
qed

lemma parse_line_retry:
  "\<not> leading_integer c \<Longrightarrow> parse_line st (''retry:'' @ c) = st"
  using parseInt_trim[of c] by (simp add: parse_line_def startsWith_def Let_def)

text \<open>
  C7, as stated, fails in two ways. The content \<open>12abc\<close> is not numeric, yet the line
  \<open>retry: 12abc\<close> sets the retry field to 12, since the integer parse stops at the first
  character that is no digit. And a block that contains \<open>retry: abc\<close> has its retry field
  populated when another line of the block is \<open>retry: 5\<close>.
\<close>

theorem retry_line_ignored_counterexample:
  "\<not> numeric '' 12abc''
   \<and> (case parseSSEEvent ''retry: 12abc'' of None \<Rightarrow> None | Some ev \<Rightarrow> retry ev) = Some (Num 12)
   \<and> \<not> numeric '' abc''
   \<and> (case parseSSEEvent ''retry: abc\<newline>retry: 5'' of None \<Rightarrow> None | Some ev \<Rightarrow> retry ev) = Some (Num 5)"
  by (simp add: numeric_def unsigned_def trim_def is_ws_def is_digit_def digit_val_def
      to_number_def round_double_def
      parseSSEEvent_def parse_lines_def parse_line_def finish_event_def has_keys_def
      empty_event_def startsWith_def parseInt_def)

text \<open>
  C7, amended. A \<open>retry:\<close> line whose content, trimmed and less one sign, does not start with
  a decimal digit leaves the event under construction and the collected data lines as
  they are: it does not set the retry field, nothing is raised, and the lines after it
  are processed as usual, so the block parses exactly as it would without that line.
\<close>

theorem retry_line_ignored:
  "\<not> leading_integer c \<longrightarrow>
     parse_line st (''retry:'' @ c) = st
     \<and> (js_split [NL] block = ls1 @ (''retry:'' @ c) # ls2 \<longrightarrow>
          parseSSEEvent block = finish_event (parse_lines (ls1 @ ls2)))"
proof (intro impI conjI)
  assume h: "\<not> leading_integer c"
  show "parse_line st (''retry:'' @ c) = st" by (rule parse_line_retry[OF h])
  assume s: "js_split [NL] block = ls1 @ (''retry:'' @ c) # ls2"
  have "parse_lines (ls1 @ (''retry:'' @ c) # ls2) = parse_lines (ls1 @ ls2)"
    by (simp only: parse_lines_def foldl_append foldl_Cons parse_line_retry[OF h])
  then show "parseSSEEvent block = finish_event (parse_lines (ls1 @ ls2))"
    by (simp only: parseSSEEvent_def s)
qed

theorem retry_line_ignored_witness:
  "\<not> leading_integer '' soon''
   \<and> js_split [NL] ''id: 7\<newline>retry: soon\<newline>data: x''
       = [''id: 7''] @ (''retry:'' @ '' soon'') # [''data: x'']
   \<and> parseSSEEvent ''id: 7\<newline>retry: soon\<newline>data: x''
       = Some \<lparr>event = None, data = Some ''x'', id_field = Some ''7'', retry = None\<rparr>"
proof -
  have h: "\<not> leading_integer '' soon''"
    by (simp add: leading_integer_def unsigned_def trim_def is_ws_def is_digit_def)
  have s: "js_split [NL] ''id: 7\<newline>retry: soon\<newline>data: x''
           = [''id: 7''] @ (''retry:'' @ '' soon'') # [''data: x'']"
    by (simp add: startsWith_def)
  have v: "finish_event (parse_lines ([''id: 7''] @ [''data: x'']))
           = Some \<lparr>event = None, data = Some ''x'', id_field = Some ''7'', retry = None\<rparr>"
    by (simp add: parse_lines_def parse_line_def finish_event_def has_keys_def
      empty_event_def startsWith_def trim_def is_ws_def)
  have "parseSSEEvent ''id: 7\<newline>retry: soon\<newline>data: x''
        = finish_event (parse_lines ([''id: 7''] @ [''data: x'']))"
    using retry_line_ignored[of "'' soon''" "(empty_event, [])"
        "''id: 7\<newline>retry: soon\<newline>data: x''" "[''id: 7'']" "[''data: x'']"] h s
    by blast
  then show ?thesis using h s v by (simp only: simp_thms)
qed

section \<open>The stream controller: retries\<close>

lemma retry_settings:
  "retryDelay (options\<lparr>opt_retryDelay := None\<rparr>) = 1000"
  "maxRetries (options\<lparr>opt_retry := None\<rparr>) = 0"
  "d \<noteq> 0 \<Longrightarrow> retryDelay (options\<lparr>opt_retryDelay := Some d\<rparr>) = d"
  by (simp_all add: retryDelay_def maxRetries_def)

lemma start_state:
  "opt_signal options \<noteq> Some True \<Longrightarrow>
   createStreamRequest options =
     \<lparr>aborted = False, listening = (opt_signal options = Some False), reader = False,
      attempts = 0, pending = AwaitResponse, trace = [Request]\<rparr>"
  by (simp add: createStreamRequest_def makeRequest_def emit_def)

lemma run_append:
  "run options cbs (xs @ ys) = foldl (step options cbs) (run options cbs xs) ys"
  by (simp add: run_def)

lemma establish_failed_retry:
  assumes "establishment_failure (Rejected err)" "\<not> aborted s" "attempts s < maxRetries options"
  shows "establish_failed options cbs s err =
           s\<lparr>attempts := attempts s + 1, pending := AwaitTimer,
             trace := trace s @ [SetTimeout (retryDelay options)]\<rparr>"
  using assms by (simp add: establish_failed_def establishment_failure_def emit_def)

lemma no_stream_error_failure: "establishment_failure (Rejected no_stream_error)"
  by (simp add: establishment_failure_def no_stream_error_def)

lemma step_failure:
  assumes "establishment_failure f" "pending s = AwaitResponse" "\<not> aborted s"
    "attempts s < maxRetries options"
  shows "step options cbs s f =
           s\<lparr>attempts := attempts s + 1, pending := AwaitTimer,
             trace := trace s @ [SetTimeout (retryDelay options)]\<rparr>"
proof (cases f)
  case (Responded r)
  then have "\<not> has_reader r" using assms(1) by (simp add: establishment_failure_def)
  then show ?thesis
    using Responded assms establish_failed_retry[OF no_stream_error_failure assms(3,4)]
    by (simp add: step_def response_received_def)
next
  case (Rejected err)
  then show ?thesis
    using assms establish_failed_retry[of err s options cbs] by (simp add: step_def)
next
  case TimerFired
  then show ?thesis using assms(1) by (simp add: establishment_failure_def)
next
  case (ReadSettled rr)
  then show ?thesis using assms(1) by (simp add: establishment_failure_def)
next
  case (CancelCalled rel)
  then show ?thesis using assms(1) by (simp add: establishment_failure_def)
next
  case SignalAborted
  then show ?thesis using assms(1) by (simp add: establishment_failure_def)
qed

text \<open>A failed attempt with retries left: the timer is armed, and when it fires the request is issued anew.\<close>

lemma one_round:
  assumes "establishment_failure f" "pending s = AwaitResponse" "\<not> aborted s"
    "attempts s < maxRetries options"
  shows "step options cbs (step options cbs s f) TimerFired =
           s\<lparr>attempts := attempts s + 1,
             trace := trace s @ [SetTimeout (retryDelay options), Request]\<rparr>"
  using assms(2,3)
  by (simp only: step_failure[OF assms]) (simp add: step_def makeRequest_def emit_def)

lemma rounds:
  "list_all establishment_failure fs \<Longrightarrow> pending s = AwaitResponse \<Longrightarrow> \<not> aborted s \<Longrightarrow>
   fs = [] \<or> attempts s + int (length fs) \<le> maxRetries options \<Longrightarrow>
   foldl (step options cbs) s (retry_rounds fs) =
     s\<lparr>attempts := attempts s + int (length fs),
       trace := trace s @ concat (replicate (length fs) [SetTimeout (retryDelay options), Request])\<rparr>"
proof (induction fs arbitrary: s)
  case Nil
  show ?case by (simp add: retry_rounds_def)
next
  case (Cons f fs)
  let ?s' = "s\<lparr>attempts := attempts s + 1,
             trace := trace s @ [SetTimeout (retryDelay options), Request]\<rparr>"
  have f: "establishment_failure f" and fs: "list_all establishment_failure fs"
    using Cons.prems(1) by simp_all
  have lt: "attempts s < maxRetries options" using Cons.prems(4) by simp
  have r1: "step options cbs (step options cbs s f) TimerFired = ?s'"
    by (rule one_round[OF f Cons.prems(2,3) lt])
  have ih: "foldl (step options cbs) ?s' (retry_rounds fs) =
     ?s'\<lparr>attempts := attempts ?s' + int (length fs),
       trace := trace ?s' @ concat (replicate (length fs) [SetTimeout (retryDelay options), Request])\<rparr>"
    using Cons.prems by (intro Cons.IH[OF fs]) simp_all
  have "foldl (step options cbs) s (retry_rounds (f # fs)) =
          foldl (step options cbs) (step options cbs (step options cbs s f) TimerFired)
            (retry_rounds fs)"
    by (simp add: retry_rounds_def)
  then show ?case by (simp only: r1 ih) (simp add: add.assoc)
qed

lemma chunks_delivered:
  "pending s = AwaitRead \<Longrightarrow> has_onChunk cbs \<Longrightarrow>
   foldl (step options cbs) s (chunk_reads chunks) = s\<lparr>trace := trace s @ map OnChunk chunks\<rparr>"
proof (induction chunks arbitrary: s)
  case Nil
  show ?case by (simp add: chunk_reads_def)
next
  case (Cons c cs)
  let ?s' = "s\<lparr>trace := trace s @ [OnChunk c]\<rparr>"
  have s1: "step options cbs s (ReadSettled (Chunk c)) = ?s'"
    using Cons.prems by (simp add: step_def read_settled_def emit_def)
  have "foldl (step options cbs) ?s' (chunk_reads cs) = ?s'\<lparr>trace := trace ?s' @ map OnChunk cs\<rparr>"
    using Cons.prems by (intro Cons.IH) simp_all
  then show ?case using s1 by (simp add: chunk_reads_def)
qed

lemma filter_Request_OnChunk: "filter (\<lambda>e. e = Request) (map OnChunk chunks) = []"
  by (induction chunks) simp_all

text \<open>
  C4. With \<open>retry\<close> set to 3 and no abort, when the first two attempts fail (the request is
  rejected with an error that is no cancellation, or the response yields no reader) and the
  third yields a reader whose reads deliver chunks and then the end of the stream, the
  request is issued exactly three times, each chunk goes to \<open>onChunk\<close> in order,
  \<open>onComplete\<close> follows, and \<open>onError\<close> is never invoked.
\<close>

theorem retry_then_stream:
  assumes "opt_retry options = Some 3" and "opt_signal options \<noteq> Some True"
    and "establishment_failure f1" and "establishment_failure f2" and "has_reader r"
    and "has_onChunk cbs" and "has_onComplete cbs"
  shows "trace (run options cbs
           ([f1, TimerFired, f2, TimerFired, Responded r] @ chunk_reads chunks @ [ReadSettled Done]))
         = [Request, SetTimeout (retryDelay options), Request, SetTimeout (retryDelay options), Request]
           @ map OnChunk chunks @ [OnComplete]
       \<and> length (filter (\<lambda>e. e = Request)
           (trace (run options cbs
             ([f1, TimerFired, f2, TimerFired, Responded r] @ chunk_reads chunks @ [ReadSettled Done])))) = 3
       \<and> (\<forall>m. OnError m \<notin> set (trace (run options cbs
             ([f1, TimerFired, f2, TimerFired, Responded r] @ chunk_reads chunks @ [ReadSettled Done]))))"
proof -
  let ?d = "retryDelay options"
  let ?s0 = "createStreamRequest options"
  have s0: "?s0 = \<lparr>aborted = False, listening = (opt_signal options = Some False), reader = False,
      attempts = 0, pending = AwaitResponse, trace = [Request]\<rparr>"
    by (rule start_state[OF assms(2)])
  have mr: "maxRetries options = 3" using assms(1) by (simp add: maxRetries_def)
  have "foldl (step options cbs) ?s0 (retry_rounds [f1, f2]) =
          ?s0\<lparr>attempts := attempts ?s0 + int (length [f1, f2]),
            trace := trace ?s0 @ concat (replicate (length [f1, f2]) [SetTimeout ?d, Request])\<rparr>"
    using assms(3,4) mr by (intro rounds) (simp_all add: s0)
  then have s2: "run options cbs [f1, TimerFired, f2, TimerFired] =
          ?s0\<lparr>attempts := 2, trace := [Request, SetTimeout ?d, Request, SetTimeout ?d, Request]\<rparr>"
    by (simp add: run_def retry_rounds_def s0)
  let ?s2 = "?s0\<lparr>attempts := 2, trace := [Request, SetTimeout ?d, Request, SetTimeout ?d, Request]\<rparr>"
  let ?s3 = "?s2\<lparr>reader := True, pending := AwaitRead\<rparr>"
  have s3: "step options cbs ?s2 (Responded r) = ?s3"
    using assms(5) by (simp add: step_def response_received_def s0)
  have s4: "foldl (step options cbs) ?s3 (chunk_reads chunks)
            = ?s3\<lparr>trace := trace ?s3 @ map OnChunk chunks\<rparr>"
    using assms(6) by (intro chunks_delivered) simp_all
  have "run options cbs
          ([f1, TimerFired, f2, TimerFired, Responded r] @ chunk_reads chunks @ [ReadSettled Done])
        = step options cbs
            (foldl (step options cbs)
               (step options cbs (run options cbs [f1, TimerFired, f2, TimerFired]) (Responded r))
               (chunk_reads chunks)) (ReadSettled Done)"
    by (simp add: run_def)
  then have tr: "trace (run options cbs
           ([f1, TimerFired, f2, TimerFired, Responded r] @ chunk_reads chunks @ [ReadSettled Done]))
         = [Request, SetTimeout ?d, Request, SetTimeout ?d, Request] @ map OnChunk chunks @ [OnComplete]"
    using assms(7)
    by (simp only: s2 s3 s4) (simp add: step_def read_settled_def emit_def cleanup_def)
  show ?thesis
    by (simp only: tr) (auto simp: filter_Request_OnChunk)
qed

theorem retry_then_stream_witness:
  "trace (run \<lparr>opt_retry = Some 3, opt_retryDelay = Some 250, opt_signal = None\<rparr>
        \<lparr>has_onChunk = True, has_onComplete = True, has_onError = True\<rparr>
        ([Rejected \<lparr>err_name = ''AxiosError'', err_code = Some ''ERR_NETWORK'',
                    err_message = Some ''Network Error''\<rparr>,
          TimerFired,
          Responded \<lparr>resp_data = Truthy Missing, resp_body = Falsy, resp_getReader = Missing\<rparr>,
          TimerFired,
          Responded \<lparr>resp_data = Truthy IsFunction, resp_body = Falsy, resp_getReader = Missing\<rparr>]
         @ chunk_reads [''ab'', ''c''] @ [ReadSettled Done]))
   = [Request, SetTimeout 250, Request, SetTimeout 250, Request,
      OnChunk ''ab'', OnChunk ''c'', OnComplete]"
proof -
  let ?o = "\<lparr>opt_retry = Some 3, opt_retryDelay = Some 250, opt_signal = None\<rparr>"
  let ?c = "\<lparr>has_onChunk = True, has_onComplete = True, has_onError = True\<rparr>"
  let ?f1 = "Rejected \<lparr>err_name = ''AxiosError'', err_code = Some ''ERR_NETWORK'',
                       err_message = Some ''Network Error''\<rparr>"
  let ?f2 = "Responded \<lparr>resp_data = Truthy Missing, resp_body = Falsy, resp_getReader = Missing\<rparr>"
  let ?r = "\<lparr>resp_data = Truthy IsFunction, resp_body = Falsy, resp_getReader = Missing\<rparr>"
  have a: "opt_retry ?o = Some 3" "opt_signal ?o \<noteq> Some True" by simp_all
  have b: "establishment_failure ?f1" "establishment_failure ?f2"
    by (simp_all add: establishment_failure_def has_reader_def readableStream_def)
  have c: "has_reader ?r" by (simp add: has_reader_def readableStream_def)
  have d: "has_onChunk ?c" "has_onComplete ?c" by simp_all
  have e: "retryDelay ?o = 250" by (simp add: retryDelay_def)
  show ?thesis
    using retry_then_stream[OF a b c d, of "[''ab'', ''c'']"] by (simp only: e) simp
qed

text \<open>
  C1, as stated, fails: with \<open>retry\<close> set to 1, a response that yields no reader arms the
  retry timer, and when the timer fires the request is issued a second time; \<open>onError\<close>
  has not been invoked.
\<close>

theorem no_reader_retried_counterexample:
  "\<not> has_reader \<lparr>resp_data = Falsy, resp_body = Falsy, resp_getReader = Missing\<rparr>
   \<and> trace (run \<lparr>opt_retry = Some 1, opt_retryDelay = None, opt_signal = None\<rparr>
        \<lparr>has_onChunk = True, has_onComplete = True, has_onError = True\<rparr>
        [Responded \<lparr>resp_data = Falsy, resp_body = Falsy, resp_getReader = Missing\<rparr>, TimerFired])
     = [Request, SetTimeout 1000, Request]"
  by (simp add: run_def createStreamRequest_def makeRequest_def emit_def step_def
      response_received_def establish_failed_def has_reader_def readableStream_def
      no_stream_error_def maxRetries_def retryDelay_def)

text \<open>
  C1, amended. A response that yields no reader is an establishment failure like any other:
  it is retried while retries remain. In a session that is not aborted and in which every
  response yields no reader, the request is issued once and once more per configured
  retry, each retry after the configured delay, and then \<open>onError\<close> is invoked exactly
  once, with the message that streaming is not supported; with no retries configured it is
  invoked after the first response.
\<close>

theorem no_reader_retried:
  assumes "opt_signal options \<noteq> Some True" and "has_onError cbs"
    and "list_all (\<lambda>r. \<not> has_reader r) (rs @ [r])"
    and "length rs = nat (maxRetries options)"
  shows "trace (run options cbs (retry_rounds (map Responded rs) @ [Responded r]))
         = Request # concat (replicate (length rs) [SetTimeout (retryDelay options), Request])
           @ [OnError no_stream_message, ConsoleError no_stream_message]"
proof -
  let ?d = "retryDelay options"
  let ?s0 = "createStreamRequest options"
  have s0: "?s0 = \<lparr>aborted = False, listening = (opt_signal options = Some False), reader = False,
      attempts = 0, pending = AwaitResponse, trace = [Request]\<rparr>"
    by (rule start_state[OF assms(1)])
  have fs: "list_all establishment_failure (map Responded rs)"
    using assms(3) by (simp add: list_all_iff establishment_failure_def)
  have le: "map Responded rs = [] \<or>
      attempts ?s0 + int (length (map Responded rs)) \<le> maxRetries options"
    using assms(4) by (cases rs) (simp_all add: s0)
  have "foldl (step options cbs) ?s0 (retry_rounds (map Responded rs)) =
          ?s0\<lparr>attempts := attempts ?s0 + int (length (map Responded rs)),
            trace := trace ?s0 @
              concat (replicate (length (map Responded rs)) [SetTimeout ?d, Request])\<rparr>"
    using fs le by (intro rounds) (simp_all add: s0)
  then have s1: "run options cbs (retry_rounds (map Responded rs)) =
          ?s0\<lparr>attempts := int (length rs),
            trace := Request # concat (replicate (length rs) [SetTimeout ?d, Request])\<rparr>"
    by (simp add: run_def s0)
  have nr: "\<not> has_reader r" using assms(3) by simp
  have ge: "\<not> int (length rs) < maxRetries options" using assms(4) by simp
  show ?thesis
    using nr ge assms(2)
    by (simp only: run_append s1)
      (simp add: step_def response_received_def establish_failed_def emit_def
        no_stream_error_def no_stream_message_def message_or_def s0 Let_def)
qed

theorem no_reader_retried_witness:
  "trace (run \<lparr>opt_retry = Some 1, opt_retryDelay = None, opt_signal = None\<rparr>
        \<lparr>has_onChunk = True, has_onComplete = True, has_onError = True\<rparr>
        [Responded \<lparr>resp_data = Falsy, resp_body = Falsy, resp_getReader = Missing\<rparr>, TimerFired,
         Responded \<lparr>resp_data = Truthy NotAFunction, resp_body = Truthy IsFunction,
                    resp_getReader = IsFunction\<rparr>])
   = [Request, SetTimeout 1000, Request,
      OnError ''Browser does not support stream response, API did not return stream, or response was transformed incorrectly'',
      ConsoleError ''Browser does not support stream response, API did not return stream, or response was transformed incorrectly'']"
proof -
  let ?o = "\<lparr>opt_retry = Some 1, opt_retryDelay = None, opt_signal = None\<rparr>"
  let ?c = "\<lparr>has_onChunk = True, has_onComplete = True, has_onError = True\<rparr>"
  let ?r1 = "\<lparr>resp_data = Falsy, resp_body = Falsy, resp_getReader = Missing\<rparr>"
  let ?r2 = "\<lparr>resp_data = Truthy NotAFunction, resp_body = Truthy IsFunction,
              resp_getReader = IsFunction\<rparr>"
  have a: "opt_signal ?o \<noteq> Some True" "has_onError ?c" by simp_all
  have b: "list_all (\<lambda>r. \<not> has_reader r) ([?r1] @ [?r2])"
    by (simp add: has_reader_def readableStream_def)
  have c: "length [?r1] = nat (maxRetries ?o)" by (simp add: maxRetries_def)
  have e: "retryDelay ?o = 1000" by (simp add: retryDelay_def)
  show ?thesis
    using no_reader_retried[OF a b c]
    by (simp only: e) (simp add: retry_rounds_def no_stream_message_def)
qed

text \<open>
  C8 at \<open>retryDelay = 0\<close>: the delay read from the options is 1000, and after a rejected
  first attempt the retry timer is armed with 1000 milliseconds, not with 0.
\<close>

theorem retryDelay_zero_ignored:
  "retryDelay \<lparr>opt_retry = Some 1, opt_retryDelay = Some 0, opt_signal = None\<rparr> = 1000
   \<and> trace (run \<lparr>opt_retry = Some 1, opt_retryDelay = Some 0, opt_signal = None\<rparr>
        \<lparr>has_onChunk = True, has_onComplete = True, has_onError = True\<rparr>
        [Rejected \<lparr>err_name = ''AxiosError'', err_code = Some ''ERR_NETWORK'',
                   err_message = Some ''Network Error''\<rparr>])
     = [Request, SetTimeout 1000]"
  by (simp add: run_def createStreamRequest_def makeRequest_def emit_def step_def
      establish_failed_def maxRetries_def retryDelay_def)

section \<open>The stream controller: cancellation\<close>

lemma quiet_step:
  "aborted s \<Longrightarrow> quiet_after_abort i \<Longrightarrow>
   aborted (step options cbs s i) \<and> trace (step options cbs s i) = trace s"
  by (cases i rule: quiet_after_abort.cases)
    (simp_all add: step_def response_received_def establish_failed_def makeRequest_def
      read_settled_def cleanup_def)

text \<open>Once aborted, a session whose platform honours the abort has no further effect.\<close>

lemma quiet_run:
  "aborted s \<Longrightarrow> list_all quiet_after_abort post \<Longrightarrow>
   trace (foldl (step options cbs) s post) = trace s"
proof (induction post arbitrary: s)
  case Nil
  show ?case by simp
next
  case (Cons i post)
  have q: "quiet_after_abort i" and qs: "list_all quiet_after_abort post"
    using Cons.prems(2) by simp_all
  note st = quiet_step[OF Cons.prems(1) q, of options cbs]
  have "trace (foldl (step options cbs) (step options cbs s i) post) = trace (step options cbs s i)"
    using st qs by (intro Cons.IH) simp_all
  then show ?case using st by simp
qed

text \<open>
  A cancel while no read is pending, or on a platform where the abort has already failed
  the pending read: \<open>onError\<close> is invoked once, with the message of the manual
  cancellation, and the session is aborted.
\<close>

lemma cancel_without_release:
  assumes "has_onError cbs"
    and "\<not> (reader s \<and> pending s = AwaitRead) \<or> rel = ReadAlreadyFailed"
  shows "trace (step options cbs s (CancelCalled rel))
           = trace s @ [OnError ''Stream request cancelled manually'']"
    and "aborted (step options cbs s (CancelCalled rel))"
  using assms
  by (auto simp: step_def cancelRequest_def emit_def cleanup_def Let_def split: release.splits)

text \<open>
  A cancel while a read is pending, on a platform whose release rejects the read as the
  Streams standard says: the read's handler silences an \<open>AbortError\<close> only, so the rejection
  is reported through a second call of \<open>onError\<close>. Nothing of the stream is delivered
  afterwards, since the session no longer waits for a read.
\<close>

lemma cancel_with_release:
  assumes "has_onError cbs" and "reader s" and "pending s = AwaitRead"
    and "err_name err \<noteq> ''AbortError''"
  shows "trace (step options cbs s (CancelCalled (RejectsRead err)))
           = trace s @ [OnError ''Stream request cancelled manually'',
                        OnError (''Read stream failed: '' @ message_text err)]"
    and "pending (step options cbs s (CancelCalled (RejectsRead err))) = Idle"
  using assms
  by (simp_all add: step_def cancelRequest_def read_settled_def emit_def cleanup_def Let_def)

text \<open>
  A cancel while a read is pending, on a platform whose release throws: the call of
  \<open>onError\<close> is skipped and the error goes to the console.
\<close>

lemma cancel_release_throws:
  assumes "reader s" and "pending s = AwaitRead"
  shows "trace (step options cbs s (CancelCalled (Throws err)))
           = trace s @ [ConsoleCancelFailed err]"
  using assms by (simp add: step_def cancelRequest_def emit_def cleanup_def Let_def)

text \<open>
  C5 on a session whose response has arrived and whose first read is pending, so that no
  chunk has arrived yet, on a platform that follows the Streams standard: the release of
  the reader's lock rejects the pending read with a \<open>TypeError\<close>, and \<open>onError\<close> is invoked
  twice, first with the message of the manual cancellation, then with the failure of the
  read.
\<close>

theorem cancel_with_pending_read_reports_twice:
  "trace (run \<lparr>opt_retry = None, opt_retryDelay = None, opt_signal = None\<rparr>
        \<lparr>has_onChunk = True, has_onComplete = True, has_onError = True\<rparr>
        [Responded \<lparr>resp_data = Truthy IsFunction, resp_body = Falsy, resp_getReader = Missing\<rparr>,
         CancelCalled (RejectsRead \<lparr>err_name = ''TypeError'', err_code = None,
                                    err_message = Some ''Releasing lock''\<rparr>)])
   = [Request, OnError ''Stream request cancelled manually'',
      OnError ''Read stream failed: Releasing lock'']"
  by (simp add: run_def createStreamRequest_def makeRequest_def emit_def step_def
      response_received_def has_reader_def readableStream_def cancelRequest_def
      read_settled_def cleanup_def message_text_def Let_def)

end
